theory Spec2Isabelle
  imports Main
begin

section \<open>Machine integers\<close>

text \<open>
  Interval bounds and all counts of \<^verbatim>\<open>tree.go\<close> are Go \<^verbatim>\<open>int64\<close> values. They are
  modelled as mathematical integers in the range \<open>min64 .. max64\<close>; every addition and
  subtraction that the tree code itself performs is followed by the two's-complement
  wrap-around \<open>wrap64\<close>, as the Go operators \<^verbatim>\<open>+\<close> and \<^verbatim>\<open>-\<close> on \<^verbatim>\<open>int64\<close> do.
  Comparisons of \<^verbatim>\<open>int64\<close> values are the comparisons of the integers they denote.
\<close>

definition min64 :: int where
  "min64 = - (2 ^ 63)"

definition max64 :: int where
  "max64 = 2 ^ 63 - 1"

definition wrap64 :: "int \<Rightarrow> int" where
  "wrap64 x = (x + 2 ^ 63) mod 2 ^ 64 - 2 ^ 63"

definition add64 :: "int \<Rightarrow> int \<Rightarrow> int" where
  "add64 a b = wrap64 (a + b)"

definition sub64 :: "int \<Rightarrow> int \<Rightarrow> int" where
  "sub64 a b = wrap64 (a - b)"

section \<open>The Interval collaborator\<close>

text \<open>
  The \<^verbatim>\<open>Interval\<close> type is declared outside \<^verbatim>\<open>tree.go\<close>; the tree only calls its
  methods. The bounds are \<^verbatim>\<open>int64\<close>: \<^verbatim>\<open>Contains\<close> compares
  \<^verbatim>\<open>i.End()-i.Start()+1\<close> with the \<^verbatim>\<open>int64\<close> result of \<^verbatim>\<open>intersection\<close>.
\<close>

text \<open>Modelled from the spec: the Interval value type, a closed range \<open>[start, end]\<close>
  of integers with the accessors \<^verbatim>\<open>Start()\<close> and \<^verbatim>\<open>End()\<close>; it is the value that
  \<^verbatim>\<open>&interval{d.min, d.max}\<close> builds from two bounds.\<close>

record interval =
  Start :: int
  End :: int

text \<open>Modelled from the spec: the constructor producing an Interval from \<open>(start, end)\<close>.\<close>

definition NewInterval :: "int \<Rightarrow> int \<Rightarrow> interval" where
  "NewInterval s e = \<lparr>Start = s, End = e\<rparr>"

text \<open>Modelled from the spec: \<^verbatim>\<open>Interval.Contains(other)\<close>, true if the other range is
  fully inside this range.\<close>

definition Interval_Contains :: "interval \<Rightarrow> interval \<Rightarrow> bool" where
  "Interval_Contains a other \<longleftrightarrow> Start a \<le> Start other \<and> End other \<le> End a"

text \<open>Modelled from the spec: \<^verbatim>\<open>Interval.LessThan(other)\<close> and
  \<^verbatim>\<open>Interval.GreaterThan(other)\<close>, true when the ranges are disjoint and strictly
  ordered.\<close>

definition LessThan :: "interval \<Rightarrow> interval \<Rightarrow> bool" where
  "LessThan a other \<longleftrightarrow> End a < Start other"

definition GreaterThan :: "interval \<Rightarrow> interval \<Rightarrow> bool" where
  "GreaterThan a other \<longleftrightarrow> End other < Start a"

text \<open>Modelled from the spec: two ranges overlap when they share an integer;
  \<^verbatim>\<open>StartsBefore\<close> holds when this range's start precedes the other's start and the two
  overlap, \<^verbatim>\<open>EndsAfter\<close> when this range's end follows the other's end and the two
  overlap.\<close>

definition overlaps :: "interval \<Rightarrow> interval \<Rightarrow> bool" where
  "overlaps a other \<longleftrightarrow> Start a \<le> End other \<and> Start other \<le> End a"

definition StartsBefore :: "interval \<Rightarrow> interval \<Rightarrow> bool" where
  "StartsBefore a other \<longleftrightarrow> Start a < Start other \<and> overlaps a other"

definition EndsAfter :: "interval \<Rightarrow> interval \<Rightarrow> bool" where
  "EndsAfter a other \<longleftrightarrow> End other < End a \<and> overlaps a other"

text \<open>Modelled from the spec: \<^verbatim>\<open>Interval.Adjacent(other, gap)\<close>, true when the numeric
  distance between the closer endpoints of the two ranges is exactly \<open>gap\<close>; with
  \<open>gap = 1\<close> no integer lies strictly between the ranges.\<close>

definition Adjacent :: "interval \<Rightarrow> interval \<Rightarrow> int \<Rightarrow> bool" where
  "Adjacent a other gap \<longleftrightarrow> End a + gap = Start other \<or> End other + gap = Start a"

text \<open>Modelled from the spec: \<^verbatim>\<open>Interval.Extend(other)\<close>, the smallest interval covering
  both ranges.\<close>

definition Extend :: "interval \<Rightarrow> interval \<Rightarrow> interval" where
  "Extend a other = \<lparr>Start = min (Start a) (Start other), End = max (End a) (End other)\<rparr>"

text \<open>A valid interval: both bounds are \<^verbatim>\<open>int64\<close> values and \<open>Start \<le> End\<close>.\<close>

definition valid :: "interval \<Rightarrow> bool" where
  "valid a \<longleftrightarrow> min64 \<le> Start a \<and> Start a \<le> End a \<and> End a \<le> max64"

section \<open>Nodes and the tree\<close>

text \<open>
  \<^verbatim>\<open>*node\<close> is either \<^verbatim>\<open>nil\<close> (\<open>Null\<close>) or points to a node with an interval and two
  children. Every node is owned by exactly one parent, so the pointer structure is a
  tree and is modelled as a datatype; the in-place rotations of \<^verbatim>\<open>balance\<close> and
  \<^verbatim>\<open>compress\<close> become functions that return the rebuilt tree.
\<close>

datatype node = Null | Node interval node node

record intervalTree =
  root :: node

definition NewIntervalTree :: intervalTree where
  "NewIntervalTree = \<lparr>root = Null\<rparr>"

subsection \<open>Insertion\<close>

fun splitMax :: "interval \<Rightarrow> node \<Rightarrow> node \<Rightarrow> interval \<times> node" where
  "splitMax iv l Null = (iv, l)"
| "splitMax iv l (Node ri rl rr) =
     (case splitMax ri rl rr of (subinterval, rprime) \<Rightarrow> (subinterval, Node iv l rprime))"

fun splitMin :: "interval \<Rightarrow> node \<Rightarrow> node \<Rightarrow> interval \<times> node" where
  "splitMin iv Null r = (iv, r)"
| "splitMin iv (Node li ll lr) r =
     (case splitMin li ll lr of (subinterval, lprime) \<Rightarrow> (subinterval, Node iv lprime r))"

fun joinLeft :: "interval \<Rightarrow> node \<Rightarrow> node \<Rightarrow> node" where
  "joinLeft iv Null r = Node iv Null r"
| "joinLeft iv (Node li ll lr) r =
     (case splitMax li ll lr of (subinterval, lprime) \<Rightarrow>
        if Adjacent subinterval iv 1 then Node (Extend subinterval iv) lprime r
        else Node iv (Node li ll lr) r)"

fun joinRight :: "interval \<Rightarrow> node \<Rightarrow> node \<Rightarrow> node" where
  "joinRight iv l Null = Node iv l Null"
| "joinRight iv l (Node ri rl rr) =
     (case splitMin ri rl rr of (subinterval, rprime) \<Rightarrow>
        if Adjacent subinterval iv 1 then Node (Extend iv subinterval) l rprime
        else Node iv l (Node ri rl rr))"

text \<open>
  The cases of the \<^verbatim>\<open>switch\<close> are tried in the source's order. In the fourth case the
  source reads \<^verbatim>\<open>left.i\<close>, \<^verbatim>\<open>left.left\<close> and \<^verbatim>\<open>left.right\<close> of the node returned by
  \<^verbatim>\<open>joinLeft\<close>; \<open>joinLeft\<close> always returns a node (lemma \<open>joinLeft_not_Null\<close>), so the
  \<open>Null\<close> branch of that \<open>case\<close> is never taken.
\<close>

fun insert :: "interval \<Rightarrow> node \<Rightarrow> node" where
  "insert iv Null = Node iv Null Null"
| "insert iv (Node di dl dr) =
     (if Interval_Contains di iv then Node di dl dr
      else if LessThan iv di then
        (if Adjacent iv di 1 then joinLeft (NewInterval (Start iv) (End di)) dl dr
         else Node di (insert iv dl) dr)
      else if GreaterThan iv di then
        (if Adjacent iv di 1 then joinRight (Extend di iv) dl dr
         else Node di dl (insert iv dr))
      else if Interval_Contains iv di then
        (case joinLeft (Extend iv di) dl dr of
           Null \<Rightarrow> Null
         | Node li ll lr \<Rightarrow> joinRight (NewInterval (Start li) (End iv)) ll lr)
      else if StartsBefore iv di then joinLeft (NewInterval (Start iv) (End di)) dl dr
      else if EndsAfter iv di then joinRight (NewInterval (Start di) (End iv)) dl dr
      else Node di dl dr)"

subsection \<open>Queries\<close>

text \<open>
  \<^verbatim>\<open>intersection\<close> is called as \<^verbatim>\<open>intersection(i.Start(), i.End(), d.root)\<close>: in its body
  \<^verbatim>\<open>l\<close> and \<^verbatim>\<open>r\<close> are the bounds of the query, and \<^verbatim>\<open>d.min\<close>, \<^verbatim>\<open>d.max\<close> are the
  bounds \<^verbatim>\<open>d.i.Start()\<close>, \<^verbatim>\<open>d.i.End()\<close> of the node's interval. Each \<^verbatim>\<open>+\<close> and \<^verbatim>\<open>-\<close>
  is an \<^verbatim>\<open>int64\<close> operation, hence \<open>add64\<close> and \<open>sub64\<close>.
\<close>

fun intersection :: "int \<Rightarrow> int \<Rightarrow> node \<Rightarrow> int" where
  "intersection l r Null = 0"
| "intersection l r (Node di dl dr) =
     (if l > End di then
        (if dr = Null then 0 else intersection l r dr)
      else if r < Start di then
        (if dl = Null then 0 else intersection l r dl)
      else if l \<ge> Start di then
        (if r \<le> End di then add64 (sub64 r l) 1
         else
           (if dr \<noteq> Null
            then add64 (add64 (sub64 (End di) l) 1) (intersection (add64 (End di) 1) r dr)
            else add64 (sub64 (End di) l) 1))
      else if r \<le> End di then
        (if dl \<noteq> Null
         then add64 (add64 (sub64 r (Start di)) 1) (intersection l (sub64 (Start di) 1) dl)
         else add64 (sub64 r (Start di)) 1)
      else if l \<le> Start di \<and> r \<ge> End di then
        (let isection = add64 (sub64 (End di) (Start di)) 1;
             isection = (if dl \<noteq> Null
                         then add64 isection (intersection l (sub64 (Start di) 1) dl)
                         else isection)
         in if dr \<noteq> Null
            then add64 isection (intersection (add64 (End di) 1) r dr)
            else isection)
      else 0)"

declare intersection.simps(2) [simp del]

fun total :: "node \<Rightarrow> int" where
  "total Null = 0"
| "total (Node di dl dr) =
     add64 (add64 (add64 (sub64 (End di) (Start di)) 1) (total dl)) (total dr)"

subsection \<open>The public operations\<close>

definition Insert :: "interval list \<Rightarrow> intervalTree \<Rightarrow> intervalTree" where
  "Insert intervals d = fold (\<lambda>i d. d\<lparr>root := insert i (root d)\<rparr>) intervals d"

definition Intersection :: "intervalTree \<Rightarrow> interval \<Rightarrow> int" where
  "Intersection d i = intersection (Start i) (End i) (root d)"

definition Total :: "intervalTree \<Rightarrow> int" where
  "Total d = total (root d)"

definition Contains :: "intervalTree \<Rightarrow> interval \<Rightarrow> bool" where
  "Contains d i \<longleftrightarrow>
     intersection (Start i) (End i) (root d) = add64 (sub64 (End i) (Start i)) 1"

fun intersectionAll :: "node \<Rightarrow> intervalTree \<Rightarrow> int" where
  "intersectionAll Null other = 0"
| "intersectionAll (Node di dl dr) other =
     add64 (add64 (Intersection other \<lparr>Start = Start di, End = End di\<rparr>)
                  (intersectionAll dl other))
           (intersectionAll dr other)"

definition IntersectionAll :: "intervalTree \<Rightarrow> intervalTree \<Rightarrow> int" where
  "IntersectionAll d other = intersectionAll (root d) other"

subsection \<open>Balancing\<close>

text \<open>
  \<^verbatim>\<open>size\<close>, \<^verbatim>\<open>leaves\<close> and \<^verbatim>\<open>count\<close> are Go \<^verbatim>\<open>int\<close>s that count nodes of the tree.
  A tree has far fewer than \<open>2 ^ 62\<close> nodes in a 64-bit address space, so these counters
  never overflow and are modelled as natural numbers. The two subtractions of \<^verbatim>\<open>balance\<close>
  never go below zero (lemmas \<open>nearestPow2_loop_bounds\<close> and \<open>nearestPow2_bounds\<close>).
\<close>

fun nodes :: "node \<Rightarrow> nat" where
  "nodes Null = 0"
| "nodes (Node di dl dr) = nodes dl + 1 + nodes dr"

fun vine_weight :: "node \<Rightarrow> nat" where
  "vine_weight Null = 0"
| "vine_weight (Node di dl dr) = 1 + 2 * nodes dl + vine_weight dr"

text \<open>
  One pass of \<^verbatim>\<open>compress\<close>. In each iteration \<open>child\<close> is the first node of the
  remaining chain and \<open>scanner\<close> its right child; \<open>scanner\<close> takes the place of
  \<open>child\<close>, \<open>child\<close> becomes its left child and the loop goes on with the right child of
  \<open>scanner\<close>. The result is \<open>None\<close> when the source dereferences a \<^verbatim>\<open>nil\<close> pointer:
  \<^verbatim>\<open>child.right\<close> with \<^verbatim>\<open>child == nil\<close> or \<^verbatim>\<open>scanner.left\<close> with \<^verbatim>\<open>scanner == nil\<close>.
\<close>

fun compress :: "node \<Rightarrow> nat \<Rightarrow> node option" where
  "compress rt 0 = Some rt"
| "compress Null (Suc n) = None"
| "compress (Node ci cl Null) (Suc n) = None"
| "compress (Node ci cl (Node si sl sr)) (Suc n) =
     (case compress sr n of
        None \<Rightarrow> None
      | Some sr' \<Rightarrow> Some (Node si (Node ci cl sl) sr'))"

text \<open>
  \<^verbatim>\<open>nearestPow2\<close>: \<^verbatim>\<open>r\<close> is doubled while \<^verbatim>\<open>r <= i\<close>. The loop does not end when it is
  entered with \<open>r = 0\<close>, so it is a partial function; \<open>None\<close> stands for not returning.
\<close>

partial_function (option) nearestPow2_loop :: "nat \<Rightarrow> nat \<Rightarrow> nat option" where
  "nearestPow2_loop r i = (if r \<le> i then nearestPow2_loop (r * 2) i else Some (r div 2))"

declare nearestPow2_loop.simps [code]

definition nearestPow2 :: "nat \<Rightarrow> nat option" where
  "nearestPow2 i = nearestPow2_loop 1 i"

text \<open>
  The first loop of \<^verbatim>\<open>balance\<close>. \<open>tree_to_vine rest size\<close> runs the loop from the state
  where \<^verbatim>\<open>rest\<close> hangs from \<^verbatim>\<open>tail.right\<close>; it returns what hangs from that pointer when
  the loop ends, and the final \<^verbatim>\<open>size\<close> (the variable \<open>sz\<close>). A node without left
  child becomes the new \<^verbatim>\<open>tail\<close> and stays in place; otherwise \<^verbatim>\<open>rest\<close> is rotated to the right.
\<close>

function tree_to_vine :: "node \<Rightarrow> nat \<Rightarrow> node \<times> nat" where
  "tree_to_vine Null sz = (Null, sz)"
| "tree_to_vine (Node i Null r) sz =
     (case tree_to_vine r (sz + 1) of (vine, n) \<Rightarrow> (Node i Null vine, n))"
| "tree_to_vine (Node i (Node j a b) r) sz = tree_to_vine (Node j a (Node i b r)) sz"
  by pat_completeness auto
termination
  by (relation "measure (\<lambda>(t, s). vine_weight t)") auto

function balance_loop :: "node \<Rightarrow> nat \<Rightarrow> node option" where
  "balance_loop rt sz =
     (if sz > 1 then
        (case compress rt (sz div 2) of
           None \<Rightarrow> None
         | Some rt' \<Rightarrow> balance_loop rt' (sz div 2))
      else Some rt)"
  by pat_completeness auto
termination
  by (relation "measure (\<lambda>(t, s). s)") auto

text \<open>
  \<^verbatim>\<open>balance\<close> reads \<^verbatim>\<open>tail.right\<close> of its argument first, so a \<^verbatim>\<open>nil\<close> argument is a
  \<^verbatim>\<open>nil\<close> dereference.
\<close>

fun balance :: "node \<Rightarrow> node option" where
  "balance Null = None"
| "balance (Node ri rl rr) =
     (case tree_to_vine rr 0 of (vine, sz) \<Rightarrow>
        (case nearestPow2 (sz + 1) of
           None \<Rightarrow> None
         | Some p \<Rightarrow>
             (let leaves = sz + 1 - p in
              case compress (Node ri rl vine) leaves of
                None \<Rightarrow> None
              | Some rt \<Rightarrow> balance_loop rt (sz - leaves))))"

definition Balance :: "intervalTree \<Rightarrow> intervalTree option" where
  "Balance d =
     (if root d \<noteq> Null then
        (case balance (root d) of None \<Rightarrow> None | Some r \<Rightarrow> Some (d\<lparr>root := r\<rparr>))
      else Some d)"

section \<open>Specification vocabulary\<close>

fun inorder :: "node \<Rightarrow> interval list" where
  "inorder Null = []"
| "inorder (Node di dl dr) = inorder dl @ di # inorder dr"

fun height :: "node \<Rightarrow> nat" where
  "height Null = 0"
| "height (Node di dl dr) = 1 + max (height dl) (height dr)"

text \<open>The integers represented by a tree: the union of its stored intervals.\<close>

fun members :: "node \<Rightarrow> int set" where
  "members Null = {}"
| "members (Node di dl dr) = members dl \<union> {Start di .. End di} \<union> members dr"

text \<open>
  The maximal-disjoint invariant, on the in-order traversal: every stored interval is
  valid, each interval lies wholly below every later one (strictly increasing and
  pairwise disjoint), and no two consecutive intervals are adjacent with gap 1.
\<close>

definition maximal_disjoint :: "node \<Rightarrow> bool" where
  "maximal_disjoint t \<longleftrightarrow>
     list_all valid (inorder t) \<and>
     sorted_wrt LessThan (inorder t) \<and>
     successively (\<lambda>a b. \<not> Adjacent a b 1) (inorder t)"

text \<open>
  The same invariant with the three conditions folded into one: every interval ends at
  least two below the start of every later one.
\<close>

definition gapped :: "interval list \<Rightarrow> bool" where
  "gapped xs \<longleftrightarrow> list_all valid xs \<and> sorted_wrt (\<lambda>a b. End a + 1 < Start b) xs"

text \<open>The length of the chain of right children that starts at a node.\<close>

fun rspine :: "node \<Rightarrow> nat" where
  "rspine Null = 0"
| "rspine (Node di dl dr) = 1 + rspine dr"

text \<open>
  A left-leaning tree: the shape that \<open>Insert\<close> builds from the single integers
  \<open>2n, 2(n - 1), \<dots>, 2\<close> inserted in this order.
\<close>

fun left_chain :: "int \<Rightarrow> nat \<Rightarrow> node" where
  "left_chain hi 0 = Null"
| "left_chain hi (Suc k) = Node \<lparr>Start = 2 * hi, End = 2 * hi\<rparr> (left_chain (hi - 1) k) Null"

definition descending :: "nat \<Rightarrow> interval list" where
  "descending n = map (\<lambda>k. \<lparr>Start = 2 * int k, End = 2 * int k\<rparr>) (rev [1..<Suc n])"


section \<open>Arithmetic modulo \<open>2 ^ 64\<close>\<close>

lemma wrap64_id: "min64 \<le> x \<Longrightarrow> x \<le> max64 \<Longrightarrow> wrap64 x = x"
  by (simp add: wrap64_def min64_def max64_def)

lemma wrap64_add_left [simp]: "wrap64 (wrap64 a + b) = wrap64 (a + b)"
proof -
  have e: "a + 2 ^ 63 + b = a + b + (2 ^ 63 :: int)" by simp
  have "wrap64 (wrap64 a + b) = ((a + 2 ^ 63) mod 2 ^ 64 + b) mod 2 ^ 64 - 2 ^ 63"
    by (simp add: wrap64_def)
  also have "\<dots> = (a + 2 ^ 63 + b) mod 2 ^ 64 - 2 ^ 63"
    by (simp only: mod_add_left_eq)
  also have "\<dots> = wrap64 (a + b)"
    by (simp only: e wrap64_def)
  finally show ?thesis .
qed

lemma wrap64_add_right [simp]: "wrap64 (a + wrap64 b) = wrap64 (a + b)"
  using wrap64_add_left [of b a] by (simp add: add.commute)

lemma wrap64_idem [simp]: "wrap64 (wrap64 a) = wrap64 a"
  using wrap64_add_left [of a 0] by simp

lemma wrap64_diff_left [simp]: "wrap64 (wrap64 a - b) = wrap64 (a - b)"
  using wrap64_add_left [of a "- b"] by simp

lemma wrap64_0 [simp]: "wrap64 0 = 0"
  by (simp add: wrap64_def)

lemma wrap64_add_left3 [simp]: "wrap64 (wrap64 a + b + c) = wrap64 (a + b + c)"
  using wrap64_add_left [of a "b + c"] by (simp add: add.assoc)

lemma wrap64_add_mid [simp]: "wrap64 (a + wrap64 b + c) = wrap64 (a + b + c)"
proof -
  have "wrap64 (a + wrap64 b + c) = wrap64 (wrap64 b + (a + c))"
    by (simp only: ac_simps)
  also have "\<dots> = wrap64 (b + (a + c))"
    by (rule wrap64_add_left)
  finally show ?thesis by (simp only: ac_simps)
qed

lemma add64_sub64_1: "add64 (sub64 a b) 1 = wrap64 (a - b + 1)"
  by (simp add: add64_def sub64_def)

lemma add64_wrap_left [simp]: "add64 (wrap64 a) b = wrap64 (a + b)"
  by (simp add: add64_def)

lemma add64_wrap_right [simp]: "add64 a (wrap64 b) = wrap64 (a + b)"
  by (simp add: add64_def)

lemma wrap64_eq_iff: "wrap64 a = wrap64 b \<longleftrightarrow> 2 ^ 64 dvd (a - b)"
proof -
  have "wrap64 a = wrap64 b \<longleftrightarrow> (a + 2 ^ 63) mod 2 ^ 64 = (b + 2 ^ 63) mod 2 ^ 64"
    by (simp add: wrap64_def)
  also have "\<dots> \<longleftrightarrow> 2 ^ 64 dvd ((a + 2 ^ 63) - (b + 2 ^ 63))"
    by (rule mod_eq_dvd_iff)
  finally show ?thesis by simp
qed

section \<open>The invariant on subtrees\<close>

lemma gapped_iff_aux:
  "list_all valid xs \<Longrightarrow>
   (sorted_wrt LessThan xs \<and> successively (\<lambda>a b. \<not> Adjacent a b 1) xs) =
   sorted_wrt (\<lambda>a b. End a + 1 < Start b) xs"
proof (induction xs rule: induct_list012)
  case 1
  then show ?case by simp
next
  case (2 x)
  then show ?case by simp
next
  case (3 x y zs)
  have v: "valid x" "valid y" "list_all valid zs" using "3.prems" by simp_all
  have ih: "(sorted_wrt LessThan (y # zs) \<and> successively (\<lambda>a b. \<not> Adjacent a b 1) (y # zs)) =
    sorted_wrt (\<lambda>a b. End a + 1 < Start b) (y # zs)"
    using "3.IH"(2) "3.prems" by simp
  show ?case
  proof
    assume a: "sorted_wrt LessThan (x # y # zs) \<and>
      successively (\<lambda>a b. \<not> Adjacent a b 1) (x # y # zs)"
    then have xy: "End x < Start y" "\<not> Adjacent x y 1"
      by (simp_all add: LessThan_def)
    then have xy': "End x + 1 < Start y"
      by (auto simp: Adjacent_def)
    from a ih have s: "sorted_wrt (\<lambda>a b. End a + 1 < Start b) (y # zs)"
      by simp
    have "\<forall>z\<in>set zs. End x + 1 < Start z"
    proof
      fix z assume "z \<in> set zs"
      with s have "End y + 1 < Start z" by simp
      with xy' v(2) show "End x + 1 < Start z" by (simp add: valid_def)
    qed
    with xy' s show "sorted_wrt (\<lambda>a b. End a + 1 < Start b) (x # y # zs)"
      by simp
  next
    assume a: "sorted_wrt (\<lambda>a b. End a + 1 < Start b) (x # y # zs)"
    then have s: "sorted_wrt (\<lambda>a b. End a + 1 < Start b) (y # zs)" by simp
    with ih have t: "sorted_wrt LessThan (y # zs)"
      "successively (\<lambda>a b. \<not> Adjacent a b 1) (y # zs)" by simp_all
    from a have xy: "End x + 1 < Start y" and xz: "\<forall>z\<in>set zs. End x + 1 < Start z"
      by simp_all
    have "\<not> Adjacent x y 1" using xy v by (auto simp: Adjacent_def valid_def)
    moreover have "\<forall>z\<in>set (y # zs). LessThan x z" using xy xz by (auto simp: LessThan_def)
    ultimately show "sorted_wrt LessThan (x # y # zs) \<and>
      successively (\<lambda>a b. \<not> Adjacent a b 1) (x # y # zs)"
      using t by simp
  qed
qed

lemma maximal_disjoint_gapped: "maximal_disjoint t = gapped (inorder t)"
  using gapped_iff_aux [of "inorder t"] by (auto simp: maximal_disjoint_def gapped_def)

lemma members_inorder: "members t = (\<Union>i\<in>set (inorder t). {Start i .. End i})"
  by (induction t) auto

lemma finite_members [simp]: "finite (members t)"
  by (induction t) auto

lemma maximal_disjoint_Null [simp]: "maximal_disjoint Null"
  by (simp add: maximal_disjoint_def)

lemma maximal_disjoint_Node:
  "maximal_disjoint (Node di dl dr) \<longleftrightarrow>
     maximal_disjoint dl \<and> maximal_disjoint dr \<and> valid di \<and>
     (\<forall>j\<in>set (inorder dl). End j + 1 < Start di) \<and>
     (\<forall>j\<in>set (inorder dr). End di + 1 < Start j) \<and>
     (\<forall>j\<in>set (inorder dl). \<forall>k\<in>set (inorder dr). End j + 1 < Start k)"
  by (auto simp: maximal_disjoint_gapped gapped_def sorted_wrt_append)

lemma maximal_disjoint_left_below:
  assumes "maximal_disjoint (Node di dl dr)" "x \<in> members dl"
  shows "x + 1 < Start di"
proof -
  from assms(2) obtain j where "j \<in> set (inorder dl)" "x \<le> End j"
    by (auto simp: members_inorder)
  with assms(1) show ?thesis by (force simp: maximal_disjoint_Node)
qed

lemma maximal_disjoint_right_above:
  assumes "maximal_disjoint (Node di dl dr)" "x \<in> members dr"
  shows "End di + 1 < x"
proof -
  from assms(2) obtain j where "j \<in> set (inorder dr)" "Start j \<le> x"
    by (auto simp: members_inorder)
  with assms(1) show ?thesis by (force simp: maximal_disjoint_Node)
qed

section \<open>Intersection counts the common members\<close>

lemma intersection_Node:
  "intersection l r (Node di dl dr) =
     (if l > End di then intersection l r dr
      else if r < Start di then intersection l r dl
      else if l \<ge> Start di then
        (if r \<le> End di then wrap64 (r - l + 1)
         else wrap64 (End di - l + 1 + intersection (wrap64 (End di + 1)) r dr))
      else if r \<le> End di then
        wrap64 (r - Start di + 1 + intersection l (wrap64 (Start di - 1)) dl)
      else wrap64 (End di - Start di + 1 + intersection l (wrap64 (Start di - 1)) dl
                   + intersection (wrap64 (End di + 1)) r dr))"
  by (cases "dl = Null"; cases "dr = Null")
    (simp_all add: intersection.simps(2) add64_def sub64_def Let_def)

lemma intersection_count:
  "maximal_disjoint t \<Longrightarrow> min64 \<le> l \<Longrightarrow> l \<le> r \<Longrightarrow> r \<le> max64 \<Longrightarrow>
   intersection l r t = wrap64 (int (card (members t \<inter> {l..r})))"
proof (induction t arbitrary: l r)
  case Null
  then show ?case by simp
next
  case (Node di dl dr)
  let ?mn = "Start di" and ?mx = "End di"
  from Node.prems(1) have mdl: "maximal_disjoint dl" and mdr: "maximal_disjoint dr"
    and v: "valid di"
    by (simp_all add: maximal_disjoint_Node)
  have L: "\<And>x. x \<in> members dl \<Longrightarrow> x + 1 < ?mn"
    using Node.prems(1) by (rule maximal_disjoint_left_below)
  have R: "\<And>x. x \<in> members dr \<Longrightarrow> ?mx + 1 < x"
    using Node.prems(1) by (rule maximal_disjoint_right_above)
  from v have mnmx: "?mn \<le> ?mx" "min64 \<le> ?mn" "?mx \<le> max64"
    by (simp_all add: valid_def)
  consider (above) "l > ?mx"
    | (below) "l \<le> ?mx" "r < ?mn"
    | (inside) "l \<le> ?mx" "?mn \<le> r" "?mn \<le> l" "r \<le> ?mx"
    | (right) "l \<le> ?mx" "?mn \<le> r" "?mn \<le> l" "?mx < r"
    | (left) "l \<le> ?mx" "?mn \<le> r" "l < ?mn" "r \<le> ?mx"
    | (both) "l \<le> ?mx" "?mn \<le> r" "l < ?mn" "?mx < r"
    by linarith
  then show ?case
  proof cases
    case above
    have "members (Node di dl dr) \<inter> {l..r} = members dr \<inter> {l..r}"
      using above mnmx L by fastforce
    moreover have "intersection l r dr = wrap64 (int (card (members dr \<inter> {l..r})))"
      using Node.IH(2) [OF mdr] Node.prems by simp
    ultimately show ?thesis using above by (simp add: intersection_Node)
  next
    case below
    have "members (Node di dl dr) \<inter> {l..r} = members dl \<inter> {l..r}"
      using below mnmx R by fastforce
    moreover have "intersection l r dl = wrap64 (int (card (members dl \<inter> {l..r})))"
      using Node.IH(1) [OF mdl] Node.prems by simp
    ultimately show ?thesis using below by (simp add: intersection_Node)
  next
    case inside
    have "members (Node di dl dr) \<inter> {l..r} = {l..r}"
      using inside by auto
    then show ?thesis using inside Node.prems by (simp add: intersection_Node)
  next
    case right
    have s: "members (Node di dl dr) \<inter> {l..r} = {l..?mx} \<union> (members dr \<inter> {?mx + 1..r})"
      using right mnmx L R by fastforce
    have d: "{l..?mx} \<inter> (members dr \<inter> {?mx + 1..r}) = {}" by auto
    have c: "int (card (members (Node di dl dr) \<inter> {l..r})) =
      ?mx - l + 1 + int (card (members dr \<inter> {?mx + 1..r}))"
    proof -
      have "card ({l..?mx} \<union> (members dr \<inter> {?mx + 1..r})) =
        card {l..?mx} + card (members dr \<inter> {?mx + 1..r})"
        by (rule card_Un_disjoint [OF _ _ d]) simp_all
      then show ?thesis using right unfolding s by simp
    qed
    have w: "wrap64 (?mx + 1) = ?mx + 1"
      using right mnmx Node.prems by (intro wrap64_id) simp_all
    have "intersection (?mx + 1) r dr = wrap64 (int (card (members dr \<inter> {?mx + 1..r})))"
      using Node.IH(2) [OF mdr, of "?mx + 1" r] right mnmx Node.prems by simp
    then show ?thesis using right unfolding c by (simp add: intersection_Node w)
  next
    case left
    have s: "members (Node di dl dr) \<inter> {l..r} = (members dl \<inter> {l..?mn - 1}) \<union> {?mn..r}"
      using left mnmx L R by fastforce
    have d: "(members dl \<inter> {l..?mn - 1}) \<inter> {?mn..r} = {}" by auto
    have c: "int (card (members (Node di dl dr) \<inter> {l..r})) =
      r - ?mn + 1 + int (card (members dl \<inter> {l..?mn - 1}))"
    proof -
      have "card ((members dl \<inter> {l..?mn - 1}) \<union> {?mn..r}) =
        card (members dl \<inter> {l..?mn - 1}) + card {?mn..r}"
        by (rule card_Un_disjoint [OF _ _ d]) simp_all
      then show ?thesis using left unfolding s by simp
    qed
    have w: "wrap64 (?mn - 1) = ?mn - 1"
      using left mnmx Node.prems by (intro wrap64_id) simp_all
    have "intersection l (?mn - 1) dl = wrap64 (int (card (members dl \<inter> {l..?mn - 1})))"
      using Node.IH(1) [OF mdl, of l "?mn - 1"] left mnmx Node.prems by simp
    then show ?thesis using left unfolding c by (simp add: intersection_Node w)
  next
    case both
    have s: "members (Node di dl dr) \<inter> {l..r} =
      ((members dl \<inter> {l..?mn - 1}) \<union> {?mn..?mx}) \<union> (members dr \<inter> {?mx + 1..r})"
      using both mnmx L R by fastforce
    have d1: "(members dl \<inter> {l..?mn - 1}) \<inter> {?mn..?mx} = {}" by auto
    have d2: "((members dl \<inter> {l..?mn - 1}) \<union> {?mn..?mx}) \<inter> (members dr \<inter> {?mx + 1..r}) = {}"
      using mnmx by auto
    have c: "int (card (members (Node di dl dr) \<inter> {l..r})) =
      ?mx - ?mn + 1 + int (card (members dl \<inter> {l..?mn - 1}))
        + int (card (members dr \<inter> {?mx + 1..r}))"
    proof -
      have "card (((members dl \<inter> {l..?mn - 1}) \<union> {?mn..?mx}) \<union> (members dr \<inter> {?mx + 1..r})) =
        card ((members dl \<inter> {l..?mn - 1}) \<union> {?mn..?mx}) + card (members dr \<inter> {?mx + 1..r})"
        by (rule card_Un_disjoint [OF _ _ d2]) simp_all
      moreover have "card ((members dl \<inter> {l..?mn - 1}) \<union> {?mn..?mx}) =
        card (members dl \<inter> {l..?mn - 1}) + card {?mn..?mx}"
        by (rule card_Un_disjoint [OF _ _ d1]) simp_all
      ultimately show ?thesis using mnmx unfolding s by simp
    qed
    have w1: "wrap64 (?mn - 1) = ?mn - 1"
      using both mnmx Node.prems by (intro wrap64_id) simp_all
    have w2: "wrap64 (?mx + 1) = ?mx + 1"
      using both mnmx Node.prems by (intro wrap64_id) simp_all
    have i1: "intersection l (?mn - 1) dl = wrap64 (int (card (members dl \<inter> {l..?mn - 1})))"
      using Node.IH(1) [OF mdl, of l "?mn - 1"] both mnmx Node.prems by simp
    have i2: "intersection (?mx + 1) r dr = wrap64 (int (card (members dr \<inter> {?mx + 1..r})))"
      using Node.IH(2) [OF mdr, of "?mx + 1" r] both mnmx Node.prems by simp
    have "wrap64 (?mx - ?mn + 1 + wrap64 (int (card (members dl \<inter> {l..?mn - 1})))
        + wrap64 (int (card (members dr \<inter> {?mx + 1..r})))) =
      wrap64 (?mx - ?mn + 1 + int (card (members dl \<inter> {l..?mn - 1}))
        + int (card (members dr \<inter> {?mx + 1..r})))"
      by (simp only: wrap64_add_right wrap64_add_mid)
    then show ?thesis using both unfolding c by (simp add: intersection_Node w1 w2 i1 i2)
  qed
qed

lemma Intersection_count_lemma:
  "maximal_disjoint (root d) \<Longrightarrow> valid q \<Longrightarrow>
   Intersection d q = wrap64 (int (card (members (root d) \<inter> {Start q .. End q})))"
  unfolding Intersection_def by (intro intersection_count) (simp_all add: valid_def)

lemma intersectionAll_count:
  "maximal_disjoint t \<Longrightarrow> maximal_disjoint (root other) \<Longrightarrow>
   intersectionAll t other = wrap64 (int (card (members t \<inter> members (root other))))"
proof (induction t)
  case Null
  then show ?case by simp
next
  case (Node di dl dr)
  let ?mn = "Start di" and ?mx = "End di" and ?M = "members (root other)"
  from Node.prems(1) have mdl: "maximal_disjoint dl" and mdr: "maximal_disjoint dr"
    and v: "valid di"
    by (simp_all add: maximal_disjoint_Node)
  have L: "\<And>x. x \<in> members dl \<Longrightarrow> x + 1 < ?mn"
    using Node.prems(1) by (rule maximal_disjoint_left_below)
  have R: "\<And>x. x \<in> members dr \<Longrightarrow> ?mx + 1 < x"
    using Node.prems(1) by (rule maximal_disjoint_right_above)
  from v have mnmx: "?mn \<le> ?mx" by (simp add: valid_def)
  have v': "valid \<lparr>Start = ?mn, End = ?mx\<rparr>" using v by (simp add: valid_def)
  have i: "Intersection other \<lparr>Start = ?mn, End = ?mx\<rparr> =
    wrap64 (int (card (?M \<inter> {?mn .. ?mx})))"
    using Intersection_count_lemma [OF Node.prems(2) v'] by simp
  have s: "members (Node di dl dr) \<inter> ?M =
    ((?M \<inter> {?mn .. ?mx}) \<union> (members dl \<inter> ?M)) \<union> (members dr \<inter> ?M)"
    by auto
  have d1: "(?M \<inter> {?mn .. ?mx}) \<inter> (members dl \<inter> ?M) = {}"
    using L by fastforce
  have d2: "((?M \<inter> {?mn .. ?mx}) \<union> (members dl \<inter> ?M)) \<inter> (members dr \<inter> ?M) = {}"
    using L R mnmx by fastforce
  have c: "int (card (members (Node di dl dr) \<inter> ?M)) =
    int (card (?M \<inter> {?mn .. ?mx})) + int (card (members dl \<inter> ?M))
      + int (card (members dr \<inter> ?M))"
  proof -
    have "card (((?M \<inter> {?mn .. ?mx}) \<union> (members dl \<inter> ?M)) \<union> (members dr \<inter> ?M)) =
      card ((?M \<inter> {?mn .. ?mx}) \<union> (members dl \<inter> ?M)) + card (members dr \<inter> ?M)"
      by (rule card_Un_disjoint [OF _ _ d2]) simp_all
    moreover have "card ((?M \<inter> {?mn .. ?mx}) \<union> (members dl \<inter> ?M)) =
      card (?M \<inter> {?mn .. ?mx}) + card (members dl \<inter> ?M)"
      by (rule card_Un_disjoint [OF _ _ d1]) simp_all
    ultimately show ?thesis unfolding s by simp
  qed
  have "intersectionAll (Node di dl dr) other =
    wrap64 (wrap64 (int (card (?M \<inter> {?mn .. ?mx}))) + wrap64 (int (card (members dl \<inter> ?M)))
      + wrap64 (int (card (members dr \<inter> ?M))))"
    using Node.IH(1) [OF mdl Node.prems(2)] Node.IH(2) [OF mdr Node.prems(2)] i
    by (simp add: add64_def)
  also have "\<dots> = wrap64 (int (card (?M \<inter> {?mn .. ?mx})) + int (card (members dl \<inter> ?M))
      + int (card (members dr \<inter> ?M)))"
    by (simp only: wrap64_add_left3 wrap64_add_mid wrap64_add_right)
  finally show ?case unfolding c .
qed

lemma total_inorder:
  "total t = wrap64 (sum_list (map (\<lambda>i. End i - Start i + 1) (inorder t)))"
proof (induction t)
  case Null
  then show ?case by simp
next
  case (Node di dl dr)
  let ?len = "\<lambda>i. End i - Start i + 1"
  have "total (Node di dl dr) =
    wrap64 (?len di + sum_list (map ?len (inorder dl)) + sum_list (map ?len (inorder dr)))"
    by (simp add: Node.IH add64_def sub64_def)
  also have "?len di + sum_list (map ?len (inorder dl)) + sum_list (map ?len (inorder dr)) =
    sum_list (map ?len (inorder (Node di dl dr)))"
    by simp
  finally show ?case .
qed

lemma Contains_iff_covered:
  assumes md: "maximal_disjoint (root d)" and v: "valid q"
    and ne: "root d \<noteq> Null \<or> q \<noteq> \<lparr>Start = min64, End = max64\<rparr>"
  shows "Contains d q \<longleftrightarrow> {Start q .. End q} \<subseteq> members (root d)"
proof -
  let ?I = "{Start q .. End q}" and ?M = "members (root d)"
  let ?c = "int (card (?M \<inter> ?I))" and ?n = "End q - Start q + 1"
  from v have se: "Start q \<le> End q" "min64 \<le> Start q" "End q \<le> max64"
    by (simp_all add: valid_def)
  have cn: "?c \<le> ?n"
  proof -
    have "card (?M \<inter> ?I) \<le> card ?I" by (rule card_mono) simp_all
    with se show ?thesis by simp
  qed
  have n64: "?n \<le> 2 ^ 64" using se by (simp add: min64_def max64_def)
  have "Contains d q \<longleftrightarrow> wrap64 ?c = wrap64 ?n"
    using intersection_count [OF md se(2) se(1) se(3)]
    by (simp add: Contains_def add64_def sub64_def)
  also have "\<dots> \<longleftrightarrow> 2 ^ 64 dvd (?n - ?c)"
    by (simp add: wrap64_eq_iff dvd_diff_commute)
  also have "\<dots> \<longleftrightarrow> ?c = ?n"
  proof
    assume dv: "2 ^ 64 dvd (?n - ?c)"
    show "?c = ?n"
    proof (rule ccontr)
      assume neq: "?c \<noteq> ?n"
      with cn have pos: "0 < ?n - ?c" by simp
      from dv pos have "2 ^ 64 \<le> ?n - ?c" by (rule zdvd_imp_le)
      moreover have "0 \<le> ?c" by simp
      ultimately have c0: "?c = 0" and full: "?n = 2 ^ 64" using n64 by linarith+
      from full se have q: "Start q = min64" "End q = max64"
        by (simp_all add: min64_def max64_def)
      then have qf: "q = \<lparr>Start = min64, End = max64\<rparr>" by simp
      with ne have "root d \<noteq> Null" by simp
      then obtain di dl dr where nd: "root d = Node di dl dr" by (cases "root d") auto
      with md have "valid di" by (simp add: maximal_disjoint_Node)
      then have "Start di \<in> ?M \<inter> ?I"
        using nd q by (simp add: valid_def)
      then have "card (?M \<inter> ?I) \<noteq> 0"
        by (metis card_eq_0_iff empty_iff finite_Int finite_members)
      with c0 show False by simp
    qed
  next
    assume "?c = ?n"
    then show "2 ^ 64 dvd (?n - ?c)" by simp
  qed
  also have "\<dots> \<longleftrightarrow> ?I \<subseteq> ?M"
  proof
    assume "?c = ?n"
    with se have "card (?M \<inter> ?I) = card ?I" by simp
    then have "?M \<inter> ?I = ?I"
      by (intro card_subset_eq) simp_all
    then show "?I \<subseteq> ?M" by blast
  next
    assume "?I \<subseteq> ?M"
    then have "?M \<inter> ?I = ?I" by blast
    with se show "?c = ?n" by simp
  qed
  finally show ?thesis .
qed

lemma empty_tree_queries:
  assumes "valid q"
  shows "Intersection NewIntervalTree q = 0" and "Total NewIntervalTree = 0"
    and "q \<noteq> \<lparr>Start = min64, End = max64\<rparr> \<Longrightarrow> \<not> Contains NewIntervalTree q"
proof -
  show "Intersection NewIntervalTree q = 0"
    by (simp add: Intersection_def NewIntervalTree_def)
  show "Total NewIntervalTree = 0"
    by (simp add: Total_def NewIntervalTree_def)
  assume "q \<noteq> \<lparr>Start = min64, End = max64\<rparr>"
  then have "Contains NewIntervalTree q \<longleftrightarrow>
      {Start q .. End q} \<subseteq> members (root NewIntervalTree)"
    using assms by (intro Contains_iff_covered) (simp_all add: NewIntervalTree_def)
  with assms show "\<not> Contains NewIntervalTree q"
    by (simp add: NewIntervalTree_def valid_def)
qed

section \<open>Insertion of a covered interval\<close>

lemma joinLeft_not_Null: "joinLeft iv l r \<noteq> Null"
  by (cases l) (auto split: prod.splits)

lemma insert_covered:
  "maximal_disjoint t \<Longrightarrow> valid ii \<Longrightarrow> {Start ii .. End ii} \<subseteq> members t \<Longrightarrow>
   insert ii t = t"
proof (induction t)
  case Null
  then show ?case by (simp add: valid_def)
next
  case (Node di dl dr)
  let ?mn = "Start di" and ?mx = "End di" and ?s = "Start ii" and ?e = "End ii"
  from Node.prems(1) have mdl: "maximal_disjoint dl" and mdr: "maximal_disjoint dr"
    and v: "valid di"
    by (simp_all add: maximal_disjoint_Node)
  have L: "\<And>x. x \<in> members dl \<Longrightarrow> x + 1 < ?mn"
    using Node.prems(1) by (rule maximal_disjoint_left_below)
  have R: "\<And>x. x \<in> members dr \<Longrightarrow> ?mx + 1 < x"
    using Node.prems(1) by (rule maximal_disjoint_right_above)
  from v have mnmx: "?mn \<le> ?mx" by (simp add: valid_def)
  from Node.prems(2) have se: "?s \<le> ?e" by (simp add: valid_def)
  have sub: "\<And>x. ?s \<le> x \<Longrightarrow> x \<le> ?e \<Longrightarrow> x \<in> members dl \<or> (?mn \<le> x \<and> x \<le> ?mx) \<or> x \<in> members dr"
    using Node.prems(3) by auto
  from sub [of ?s] se consider (here) "?mn \<le> ?s" "?s \<le> ?mx"
    | (left) "?s \<in> members dl" | (right) "?s \<in> members dr"
    by auto
  then show ?case
  proof cases
    case here
    have "?e \<le> ?mx"
    proof (rule ccontr)
      assume "\<not> ?e \<le> ?mx"
      with here sub [of "?mx + 1"] L [of "?mx + 1"] R [of "?mx + 1"] mnmx show False
        by auto
    qed
    with here show ?thesis by (simp add: Interval_Contains_def)
  next
    case left
    from L [OF left] have s: "?s + 1 < ?mn" .
    have e: "?e + 1 < ?mn"
    proof (rule ccontr)
      assume "\<not> ?e + 1 < ?mn"
      with s sub [of "?mn - 1"] L [of "?mn - 1"] R [of "?mn - 1"] mnmx show False
        by auto
    qed
    have "{?s .. ?e} \<subseteq> members dl"
    proof
      fix x assume "x \<in> {?s .. ?e}"
      with sub [of x] e R [of x] mnmx show "x \<in> members dl" by auto
    qed
    from Node.IH(1) [OF mdl Node.prems(2) this] s e mnmx show ?thesis
      by (simp add: Interval_Contains_def LessThan_def Adjacent_def)
  next
    case right
    from R [OF right] have s: "?mx + 1 < ?s" .
    have "{?s .. ?e} \<subseteq> members dr"
    proof
      fix x assume "x \<in> {?s .. ?e}"
      with sub [of x] s L [of x] mnmx show "x \<in> members dr" by auto
    qed
    from Node.IH(2) [OF mdr Node.prems(2) this] s se mnmx show ?thesis
      by (simp add: Interval_Contains_def LessThan_def GreaterThan_def Adjacent_def)
  qed
qed

section \<open>Balancing never fails and keeps the in-order traversal\<close>

lemma tree_to_vine_props:
  "case tree_to_vine t sz of (vine, n) \<Rightarrow>
     inorder vine = inorder t \<and> n = sz + rspine vine"
  by (induction t sz rule: tree_to_vine.induct) (auto split: prod.splits)

lemma compress_ok:
  "2 * c \<le> rspine t \<Longrightarrow>
   \<exists>t'. compress t c = Some t' \<and> inorder t' = inorder t \<and> rspine t' = rspine t - c"
proof (induction t c rule: compress.induct)
  case (1 rt)
  then show ?case by simp
next
  case (2 n)
  then show ?case by simp
next
  case (3 ci cl n)
  then show ?case by simp
next
  case (4 ci cl si sl sr n)
  from "4.prems" have "2 * n \<le> rspine sr" by simp
  from "4.IH" [OF this] obtain sr' where
    "compress sr n = Some sr'" "inorder sr' = inorder sr" "rspine sr' = rspine sr - n"
    by blast
  with "4.prems" show ?case by simp
qed

lemma nearestPow2_loop_bounds:
  "0 < r \<Longrightarrow>
   \<exists>p. nearestPow2_loop r i = Some p \<and> (r \<le> i \<longrightarrow> p \<le> i \<and> i < 2 * p \<and> r \<le> p) \<and>
       (i < r \<longrightarrow> p = r div 2)"
proof (induction "i + 1 - r" arbitrary: r rule: less_induct)
  case less
  show ?case
  proof (cases "r \<le> i")
    case True
    with less.prems have "i + 1 - r * 2 < i + 1 - r" by simp
    from less.hyps [OF this] less.prems obtain p where
      p: "nearestPow2_loop (r * 2) i = Some p"
         "r * 2 \<le> i \<longrightarrow> p \<le> i \<and> i < 2 * p \<and> r * 2 \<le> p" "i < r * 2 \<longrightarrow> p = r * 2 div 2"
      by auto
    have "nearestPow2_loop r i = Some p"
      using True p(1) by (subst nearestPow2_loop.simps) simp
    with p True show ?thesis by (cases "r * 2 \<le> i") auto
  next
    case False
    then have "nearestPow2_loop r i = Some (r div 2)"
      by (subst nearestPow2_loop.simps) simp
    with False show ?thesis by simp
  qed
qed

lemma nearestPow2_bounds:
  "0 < n \<Longrightarrow> \<exists>p. nearestPow2 n = Some p \<and> 0 < p \<and> p \<le> n \<and> n < 2 * p"
  using nearestPow2_loop_bounds [of 1 n] by (auto simp: nearestPow2_def)

lemma balance_loop_ok:
  "sz \<le> rspine t \<Longrightarrow> \<exists>t'. balance_loop t sz = Some t' \<and> inorder t' = inorder t"
proof (induction t sz rule: balance_loop.induct)
  case (1 rt sz)
  show ?case
  proof (cases "sz > 1")
    case True
    have "2 * (sz div 2) \<le> rspine rt" using "1.prems" by simp
    from compress_ok [OF this] obtain rt' where
      c: "compress rt (sz div 2) = Some rt'" "inorder rt' = inorder rt"
         "rspine rt' = rspine rt - sz div 2"
      by blast
    have "sz div 2 \<le> rspine rt'" using c(3) "1.prems" by simp
    from "1.IH" [OF True c(1) this] c True show ?thesis by simp
  next
    case False
    then show ?thesis by simp
  qed
qed

lemma balance_ok:
  "t \<noteq> Null \<Longrightarrow> \<exists>t'. balance t = Some t' \<and> inorder t' = inorder t"
proof (cases t)
  case Null
  assume "t \<noteq> Null"
  with Null show ?thesis by simp
next
  case (Node ri rl rr)
  obtain vine sz where tv: "tree_to_vine rr 0 = (vine, sz)" by (cases "tree_to_vine rr 0")
  with tree_to_vine_props [of rr 0] have v: "inorder vine = inorder rr" "sz = rspine vine"
    by simp_all
  from nearestPow2_bounds [of "sz + 1"] obtain p where
    p: "nearestPow2 (sz + 1) = Some p" "0 < p" "p \<le> sz + 1" "sz + 1 < 2 * p"
    by auto
  let ?leaves = "sz + 1 - p"
  have "2 * ?leaves \<le> rspine (Node ri rl vine)" using p v by simp
  from compress_ok [OF this] obtain rt where
    c: "compress (Node ri rl vine) ?leaves = Some rt"
       "inorder rt = inorder (Node ri rl vine)"
       "rspine rt = rspine (Node ri rl vine) - ?leaves"
    by blast
  have "sz - ?leaves \<le> rspine rt" using c(3) v p by simp
  from balance_loop_ok [OF this] obtain t' where
    "balance_loop rt (sz - ?leaves) = Some t'" "inorder t' = inorder rt"
    by blast
  with Node tv p c v show ?thesis by simp
qed

section \<open>Balancing a left-leaning tree\<close>

lemma insert_go_left:
  assumes "End iv < Start di" and "End iv + 1 \<noteq> Start di" and "Start iv < Start di"
    and "End di + 1 \<noteq> Start iv"
  shows "insert iv (Node di dl dr) = Node di (insert iv dl) dr"
  using assms by (simp add: Interval_Contains_def LessThan_def Adjacent_def)

lemma insert_left_chain:
  "insert \<lparr>Start = 2 * (hi - int k), End = 2 * (hi - int k)\<rparr> (left_chain hi k) =
   left_chain hi (Suc k)"
proof (induction k arbitrary: hi)
  case 0
  then show ?case by simp
next
  case (Suc k)
  let ?x = "2 * (hi - int (Suc k))"
  let ?iv = "\<lparr>Start = ?x, End = ?x\<rparr>"
  have e: "hi - int (Suc k) = hi - 1 - int k" by simp
  have "insert ?iv (left_chain hi (Suc k)) =
    Node \<lparr>Start = 2 * hi, End = 2 * hi\<rparr> (insert ?iv (left_chain (hi - 1) k)) Null"
    unfolding left_chain.simps
  proof (rule insert_go_left)
    show "End ?iv < Start \<lparr>Start = 2 * hi, End = 2 * hi\<rparr>" by simp
    show "Start ?iv < Start \<lparr>Start = 2 * hi, End = 2 * hi\<rparr>" by simp
    show "End ?iv + 1 \<noteq> Start \<lparr>Start = 2 * hi, End = 2 * hi\<rparr>" by (simp; presburger)
    show "End \<lparr>Start = 2 * hi, End = 2 * hi\<rparr> + 1 \<noteq> Start ?iv" by (simp; presburger)
  qed
  also have "insert ?iv (left_chain (hi - 1) k) = left_chain (hi - 1) (Suc k)"
    using Suc.IH [of "hi - 1"] by (simp only: e)
  finally show ?case by simp
qed

lemma Insert_Cons:
  "Insert (x # xs) d = Insert xs (d\<lparr>root := insert x (root d)\<rparr>)"
  by (simp add: Insert_def)

lemma descending_Suc:
  "descending (Suc n) = \<lparr>Start = 2 * int (Suc n), End = 2 * int (Suc n)\<rparr> # descending n"
  by (simp add: descending_def)

lemma Insert_descending:
  "Insert (descending n) \<lparr>root = left_chain (int (n + k)) k\<rparr> =
   \<lparr>root = left_chain (int (n + k)) (n + k)\<rparr>"
proof (induction n arbitrary: k)
  case 0
  then show ?case by (simp add: descending_def Insert_def)
next
  case (Suc n)
  have "insert \<lparr>Start = 2 * int (Suc n), End = 2 * int (Suc n)\<rparr> (left_chain (int (Suc n + k)) k)
    = left_chain (int (Suc n + k)) (Suc k)"
    using insert_left_chain [of "int (Suc n + k)" k] by simp
  then show ?case
    using Suc.IH [of "Suc k"] by (simp add: descending_Suc Insert_Cons)
qed

lemma descending_valid: "n < 2 ^ 62 \<Longrightarrow> list_all valid (descending n)"
  by (auto simp: descending_def list_all_iff valid_def min64_def max64_def)

lemma height_left_chain: "height (left_chain hi k) = k"
  by (induction k arbitrary: hi) simp_all

lemma nodes_left_chain: "nodes (left_chain hi k) = k"
  by (induction k arbitrary: hi) simp_all

lemma nearestPow2_1: "nearestPow2 (Suc 0) = Some (Suc 0)"
  by (simp add: nearestPow2_def nearestPow2_loop.simps)

lemma balance_left_chain: "balance (left_chain hi (Suc k)) = Some (left_chain hi (Suc k))"
  by (simp add: nearestPow2_1)

section \<open>The claims\<close>

subsection \<open>C1: the invariant after a sequence of Inserts\<close>

text \<open>
  Claim C1 says that every sequence of valid intervals inserted into an empty tree leaves
  a tree whose in-order traversal is strictly increasing, pairwise disjoint and free of
  adjacent neighbours. The code does not achieve this. \<open>joinLeft\<close> and \<open>joinRight\<close>
  compare the widened interval with one neighbour only and only for adjacency, so an
  inserted interval that reaches over a stored interval leaves that interval in the
  tree: after \<open>[10,12]\<close>, \<open>[5,6]\<close> and \<open>[1,9]\<close> the root holds \<open>[1,12]\<close> and its
  left child still holds \<open>[5,6]\<close>. The in-order traversal is \<open>[5,6], [1,12]\<close>, and
  \<open>Total\<close> counts 14 integers where 12 are represented.
\<close>

theorem Insert_breaks_invariant:
  "list_all valid [\<lparr>Start = 10, End = 12\<rparr>, \<lparr>Start = 5, End = 6\<rparr>, \<lparr>Start = 1, End = 9\<rparr>] \<and>
   root (Insert [\<lparr>Start = 10, End = 12\<rparr>, \<lparr>Start = 5, End = 6\<rparr>, \<lparr>Start = 1, End = 9\<rparr>]
      NewIntervalTree)
     = Node \<lparr>Start = 1, End = 12\<rparr> (Node \<lparr>Start = 5, End = 6\<rparr> Null Null) Null \<and>
   \<not> maximal_disjoint (root (Insert
      [\<lparr>Start = 10, End = 12\<rparr>, \<lparr>Start = 5, End = 6\<rparr>, \<lparr>Start = 1, End = 9\<rparr>] NewIntervalTree)) \<and>
   Total (Insert [\<lparr>Start = 10, End = 12\<rparr>, \<lparr>Start = 5, End = 6\<rparr>, \<lparr>Start = 1, End = 9\<rparr>]
      NewIntervalTree) = 14"
  by (simp add: Insert_def NewIntervalTree_def Interval_Contains_def LessThan_def
      GreaterThan_def Adjacent_def Extend_def NewInterval_def maximal_disjoint_def
      valid_def min64_def max64_def Total_def add64_def sub64_def wrap64_def)

subsection \<open>C2: Intersection counts the common integers\<close>

text \<open>
  Claim C2 as stated, that \<open>Intersection\<close> returns exactly the number of integers that
  are both stored and in the query, fails where that number does not fit the \<^verbatim>\<open>int64\<close>
  result: the tree holding \<open>[0, 2^63 - 1]\<close> has \<open>2^63\<close> integers in common with the
  query \<open>[0, 2^63 - 1]\<close>, and \<open>Intersection\<close> returns \<open>- 2^63\<close>.
\<close>

theorem Intersection_overflow_counterexample:
  "maximal_disjoint (root (Insert [\<lparr>Start = 0, End = max64\<rparr>] NewIntervalTree)) \<and>
   valid \<lparr>Start = 0, End = max64\<rparr> \<and>
   Intersection (Insert [\<lparr>Start = 0, End = max64\<rparr>] NewIntervalTree) \<lparr>Start = 0, End = max64\<rparr>
     = - (2 ^ 63) \<and>
   int (card (members (root (Insert [\<lparr>Start = 0, End = max64\<rparr>] NewIntervalTree))
          \<inter> {0 .. max64})) = 2 ^ 63"
  by (simp add: Insert_def NewIntervalTree_def Intersection_def maximal_disjoint_def
      valid_def min64_def max64_def intersection.simps add64_def sub64_def wrap64_def)

text \<open>
  Claim C2, amended: for every tree satisfying the maximal-disjoint invariant and every
  valid query interval \<open>[l, r]\<close>, \<open>Intersection\<close> returns the number of integers that
  are both in the stored set and in \<open>[l, r]\<close>, reduced to \<^verbatim>\<open>int64\<close> by two's-complement
  wrap-around; it is exactly that number whenever the number is at most \<open>2^63 - 1\<close>.
  For the set \<open>{[1,5],[10,15]}\<close>, \<open>Intersection([3,12])\<close> is 6.
\<close>

theorem Intersection_count:
  assumes "maximal_disjoint (root d)" and "valid q"
  shows "Intersection d q = wrap64 (int (card (members (root d) \<inter> {Start q .. End q}))) \<and>
    (int (card (members (root d) \<inter> {Start q .. End q})) \<le> max64 \<longrightarrow>
       Intersection d q = int (card (members (root d) \<inter> {Start q .. End q})))"
proof -
  have e: "Intersection d q = wrap64 (int (card (members (root d) \<inter> {Start q .. End q})))"
    using assms by (rule Intersection_count_lemma)
  have "0 \<le> int (card (members (root d) \<inter> {Start q .. End q}))" by simp
  then have "int (card (members (root d) \<inter> {Start q .. End q})) \<le> max64 \<Longrightarrow>
    wrap64 (int (card (members (root d) \<inter> {Start q .. End q}))) =
      int (card (members (root d) \<inter> {Start q .. End q}))"
    by (intro wrap64_id) (simp_all add: min64_def)
  with e show ?thesis by simp
qed

theorem Intersection_count_witness:
  "Intersection (Insert [\<lparr>Start = 1, End = 5\<rparr>, \<lparr>Start = 10, End = 15\<rparr>] NewIntervalTree)
     \<lparr>Start = 3, End = 12\<rparr> = 6 \<and>
   int (card (members (root (Insert [\<lparr>Start = 1, End = 5\<rparr>, \<lparr>Start = 10, End = 15\<rparr>]
     NewIntervalTree)) \<inter> {3 .. 12})) = 6"
proof -
  let ?d = "Insert [\<lparr>Start = 1, End = 5\<rparr>, \<lparr>Start = 10, End = 15\<rparr>] NewIntervalTree"
  let ?q = "\<lparr>Start = 3, End = 12\<rparr>"
  have r: "root ?d = Node \<lparr>Start = 1, End = 5\<rparr> Null (Node \<lparr>Start = 10, End = 15\<rparr> Null Null)"
    by (simp add: Insert_def NewIntervalTree_def Interval_Contains_def LessThan_def
      GreaterThan_def Adjacent_def)
  have m: "maximal_disjoint (root ?d)"
    unfolding r by (simp add: maximal_disjoint_def valid_def min64_def max64_def
        LessThan_def Adjacent_def)
  have v: "valid ?q" by (simp add: valid_def min64_def max64_def)
  have i: "Intersection ?d ?q = 6"
    by (simp add: Intersection_def r intersection.simps add64_def sub64_def wrap64_def)
  have "card (members (root ?d) \<inter> {3 .. 12}) \<le> card {3 .. 12 :: int}"
    by (rule card_mono) simp_all
  then have b: "int (card (members (root ?d) \<inter> {3 .. 12})) \<le> max64"
    by (simp add: max64_def)
  from Intersection_count [OF m v] i b show ?thesis
    by simp
qed

subsection \<open>C3: Balance keeps the contents\<close>

text \<open>
  Claim C3: for every non-empty tree satisfying the maximal-disjoint invariant, Balance
  returns a tree with the same in-order traversal; \<open>Total\<close> is the same before and
  after, and \<open>Intersection q\<close> is the same before and after for every valid query
  interval \<open>q\<close>.
\<close>

theorem Balance_preserves_contents:
  assumes "root d \<noteq> Null" and "maximal_disjoint (root d)"
  shows "\<exists>d'. Balance d = Some d' \<and> inorder (root d') = inorder (root d) \<and>
    Total d' = Total d \<and> (\<forall>q. valid q \<longrightarrow> Intersection d' q = Intersection d q)"
proof -
  from balance_ok [OF assms(1)] obtain t' where
    t': "balance (root d) = Some t'" "inorder t' = inorder (root d)"
    by blast
  let ?d' = "d\<lparr>root := t'\<rparr>"
  have b: "Balance d = Some ?d'" using assms(1) t'(1) by (simp add: Balance_def)
  have m': "maximal_disjoint (root ?d')"
    using assms(2) t'(2) by (simp add: maximal_disjoint_def)
  have tot: "Total ?d' = Total d"
    by (simp add: Total_def total_inorder t'(2))
  have mem: "members (root ?d') = members (root d)"
    by (simp add: members_inorder t'(2))
  have "Intersection ?d' q = Intersection d q" if "valid q" for q
    using Intersection_count_lemma [OF m' that] Intersection_count_lemma [OF assms(2) that] mem
    by simp
  with b tot t'(2) show ?thesis by simp
qed

theorem Balance_preserves_contents_witness:
  "Balance (Insert [\<lparr>Start = 1, End = 1\<rparr>, \<lparr>Start = 3, End = 3\<rparr>, \<lparr>Start = 5, End = 5\<rparr>]
      NewIntervalTree)
     = Some \<lparr>root = Node \<lparr>Start = 3, End = 3\<rparr> (Node \<lparr>Start = 1, End = 1\<rparr> Null Null)
                (Node \<lparr>Start = 5, End = 5\<rparr> Null Null)\<rparr> \<and>
   Total \<lparr>root = Node \<lparr>Start = 3, End = 3\<rparr> (Node \<lparr>Start = 1, End = 1\<rparr> Null Null)
                (Node \<lparr>Start = 5, End = 5\<rparr> Null Null)\<rparr>
     = Total (Insert [\<lparr>Start = 1, End = 1\<rparr>, \<lparr>Start = 3, End = 3\<rparr>, \<lparr>Start = 5, End = 5\<rparr>]
         NewIntervalTree) \<and>
   Intersection \<lparr>root = Node \<lparr>Start = 3, End = 3\<rparr> (Node \<lparr>Start = 1, End = 1\<rparr> Null Null)
                (Node \<lparr>Start = 5, End = 5\<rparr> Null Null)\<rparr> \<lparr>Start = 2, End = 5\<rparr>
     = Intersection (Insert [\<lparr>Start = 1, End = 1\<rparr>, \<lparr>Start = 3, End = 3\<rparr>,
         \<lparr>Start = 5, End = 5\<rparr>] NewIntervalTree) \<lparr>Start = 2, End = 5\<rparr>"
proof -
  let ?d = "Insert [\<lparr>Start = 1, End = 1\<rparr>, \<lparr>Start = 3, End = 3\<rparr>, \<lparr>Start = 5, End = 5\<rparr>]
    NewIntervalTree"
  let ?b = "\<lparr>root = Node \<lparr>Start = 3, End = 3\<rparr> (Node \<lparr>Start = 1, End = 1\<rparr> Null Null)
                (Node \<lparr>Start = 5, End = 5\<rparr> Null Null)\<rparr>"
  have r: "?d = \<lparr>root = Node \<lparr>Start = 1, End = 1\<rparr> Null
      (Node \<lparr>Start = 3, End = 3\<rparr> Null (Node \<lparr>Start = 5, End = 5\<rparr> Null Null))\<rparr>"
    by (simp add: Insert_def NewIntervalTree_def Interval_Contains_def LessThan_def
        GreaterThan_def Adjacent_def)
  have n: "root ?d \<noteq> Null" unfolding r by simp
  have m: "maximal_disjoint (root ?d)"
    unfolding r by (simp add: maximal_disjoint_def valid_def min64_def max64_def
        LessThan_def Adjacent_def)
  have v: "valid \<lparr>Start = 2, End = 5\<rparr>" by (simp add: valid_def min64_def max64_def)
  have b: "Balance ?d = Some ?b"
    unfolding r by (simp add: Balance_def nearestPow2_def nearestPow2_loop.simps)
  from Balance_preserves_contents [OF n m] obtain d' where
    d': "Balance ?d = Some d'" "Total d' = Total ?d"
      "\<forall>q. valid q \<longrightarrow> Intersection d' q = Intersection ?d q"
    by blast
  from d'(1) b have "d' = ?b" by simp
  with d'(2,3) v b show ?thesis by blast
qed

subsection \<open>C4: the height after Balance\<close>

text \<open>
  Claim C4 bounds the height after Balance by \<open>\<lceil>log2 (N + 1)\<rceil> + O(1)\<close> for every tree
  of \<open>N\<close> intervals, a left-leaning one included. The code does not achieve this: the
  first loop of \<^verbatim>\<open>balance\<close> starts with \<^verbatim>\<open>tail := root\<close> and only straightens what hangs
  from \<^verbatim>\<open>root.right\<close>, so the left subtree of the root is never touched. The tree built
  from \<open>2n, 2(n - 1), \<dots>, 2\<close> has an empty right subtree at the root; Balance returns it
  unchanged, with \<open>n\<close> nodes and height \<open>n\<close>.
\<close>

theorem Balance_left_leaning:
  "Insert (descending n) NewIntervalTree = \<lparr>root = left_chain (int n) n\<rparr> \<and>
   Balance \<lparr>root = left_chain (int n) n\<rparr> = Some \<lparr>root = left_chain (int n) n\<rparr> \<and>
   nodes (left_chain (int n) n) = n \<and> height (left_chain (int n) n) = n"
proof -
  have "Insert (descending n) NewIntervalTree = \<lparr>root = left_chain (int n) n\<rparr>"
    using Insert_descending [of n 0] by (simp add: NewIntervalTree_def)
  moreover have "Balance \<lparr>root = left_chain (int n) n\<rparr> = Some \<lparr>root = left_chain (int n) n\<rparr>"
  proof (cases n)
    case 0
    then show ?thesis by (simp add: Balance_def)
  next
    case (Suc m)
    let ?t = "left_chain (int (Suc m)) (Suc m)"
    have "?t \<noteq> Null" by simp
    moreover have "balance ?t = Some ?t" by (rule balance_left_chain)
    ultimately have "Balance \<lparr>root = ?t\<rparr> = Some \<lparr>root = ?t\<rparr>"
      by (simp add: Balance_def del: left_chain.simps balance.simps)
    then show ?thesis unfolding Suc .
  qed
  ultimately show ?thesis by (simp add: height_left_chain nodes_left_chain)
qed

subsection \<open>C5: Contains and coverage\<close>

text \<open>
  Claim C5 says that \<open>Contains i\<close> is true exactly when every integer of \<open>i\<close> is a
  member of the stored set. The code compares \<open>Intersection i\<close> with
  \<^verbatim>\<open>i.End()-i.Start()+1\<close> computed in \<^verbatim>\<open>int64\<close>. For the full range
  \<open>[- 2^63, 2^63 - 1]\<close> this length wraps around to 0, which is what \<open>Intersection\<close>
  returns on the empty tree: \<open>Contains\<close> answers true although no integer is stored.
  Lemma \<open>Contains_iff_covered\<close> shows that this is the only input where the code and the
  claim differ.
\<close>

theorem Contains_not_covered:
  "maximal_disjoint (root NewIntervalTree) \<and>
   valid \<lparr>Start = - (2 ^ 63), End = 2 ^ 63 - 1\<rparr> \<and>
   Contains NewIntervalTree \<lparr>Start = - (2 ^ 63), End = 2 ^ 63 - 1\<rparr> \<and>
   \<not> {- (2 ^ 63) .. 2 ^ 63 - 1} \<subseteq> members (root NewIntervalTree)"
  by (simp add: Contains_def NewIntervalTree_def valid_def min64_def max64_def
      add64_def sub64_def wrap64_def)

subsection \<open>C6: inserting a covered interval\<close>

text \<open>
  Claim C6: for every tree satisfying the maximal-disjoint invariant, inserting a valid
  interval whose integers are all members of the stored set leaves \<open>Total\<close> unchanged
  and leaves \<open>Intersection q\<close> unchanged for every query interval \<open>q\<close>.
\<close>

theorem Insert_covered_noop:
  assumes "maximal_disjoint (root d)" and "valid i"
    and "{Start i .. End i} \<subseteq> members (root d)"
  shows "Total (Insert [i] d) = Total d \<and> (\<forall>q. Intersection (Insert [i] d) q = Intersection d q)"
proof -
  have "insert i (root d) = root d" using assms by (rule insert_covered)
  then have "Insert [i] d = d" by (simp add: Insert_def)
  then show ?thesis by simp
qed

theorem Insert_covered_noop_witness:
  "Total (Insert [\<lparr>Start = 2, End = 4\<rparr>]
     (Insert [\<lparr>Start = 1, End = 5\<rparr>, \<lparr>Start = 10, End = 15\<rparr>] NewIntervalTree)) = 11 \<and>
   Total (Insert [\<lparr>Start = 1, End = 5\<rparr>, \<lparr>Start = 10, End = 15\<rparr>] NewIntervalTree) = 11 \<and>
   Intersection (Insert [\<lparr>Start = 2, End = 4\<rparr>]
       (Insert [\<lparr>Start = 1, End = 5\<rparr>, \<lparr>Start = 10, End = 15\<rparr>] NewIntervalTree))
     \<lparr>Start = 3, End = 12\<rparr>
     = Intersection (Insert [\<lparr>Start = 1, End = 5\<rparr>, \<lparr>Start = 10, End = 15\<rparr>] NewIntervalTree)
         \<lparr>Start = 3, End = 12\<rparr>"
proof -
  let ?d = "Insert [\<lparr>Start = 1, End = 5\<rparr>, \<lparr>Start = 10, End = 15\<rparr>] NewIntervalTree"
  let ?i = "\<lparr>Start = 2, End = 4\<rparr>"
  have r: "root ?d = Node \<lparr>Start = 1, End = 5\<rparr> Null (Node \<lparr>Start = 10, End = 15\<rparr> Null Null)"
    by (simp add: Insert_def NewIntervalTree_def Interval_Contains_def LessThan_def
        GreaterThan_def Adjacent_def)
  have m: "maximal_disjoint (root ?d)"
    unfolding r by (simp add: maximal_disjoint_def valid_def min64_def max64_def
        LessThan_def Adjacent_def)
  have v: "valid ?i" by (simp add: valid_def min64_def max64_def)
  have c: "{Start ?i .. End ?i} \<subseteq> members (root ?d)"
    unfolding r by auto
  have t: "Total ?d = 11"
    by (simp add: Total_def r add64_def sub64_def wrap64_def)
  from Insert_covered_noop [OF m v c] t show ?thesis
    by simp
qed

subsection \<open>C7: merging on both sides\<close>

text \<open>
  Claim C7: inserting \<open>[5,5]\<close>, then \<open>[6,6]\<close>, then \<open>[4,4]\<close> into an empty tree yields
  the single node \<open>[4,6]\<close>, and \<open>Total\<close> returns 3.
\<close>

theorem Insert_merge_example:
  "Insert [\<lparr>Start = 5, End = 5\<rparr>, \<lparr>Start = 6, End = 6\<rparr>, \<lparr>Start = 4, End = 4\<rparr>] NewIntervalTree
     = \<lparr>root = Node \<lparr>Start = 4, End = 6\<rparr> Null Null\<rparr> \<and>
   Total (Insert [\<lparr>Start = 5, End = 5\<rparr>, \<lparr>Start = 6, End = 6\<rparr>, \<lparr>Start = 4, End = 4\<rparr>]
            NewIntervalTree) = 3"
  by (simp add: Insert_def NewIntervalTree_def Total_def Interval_Contains_def LessThan_def
      GreaterThan_def Adjacent_def Extend_def NewInterval_def add64_def sub64_def wrap64_def)

subsection \<open>C8: IntersectionAll is symmetric\<close>

text \<open>
  Claim C8: for every two trees that each satisfy the maximal-disjoint invariant,
  \<open>IntersectionAll\<close> of the first with the second equals \<open>IntersectionAll\<close> of the
  second with the first.
\<close>

theorem IntersectionAll_symmetric:
  assumes "maximal_disjoint (root a)" and "maximal_disjoint (root b)"
  shows "IntersectionAll a b = IntersectionAll b a"
  unfolding IntersectionAll_def
  by (simp only: intersectionAll_count [OF assms(1) assms(2)]
      intersectionAll_count [OF assms(2) assms(1)] Int_commute)

theorem IntersectionAll_symmetric_witness:
  "IntersectionAll (Insert [\<lparr>Start = 1, End = 5\<rparr>, \<lparr>Start = 10, End = 15\<rparr>] NewIntervalTree)
     (Insert [\<lparr>Start = 3, End = 12\<rparr>] NewIntervalTree) = 6 \<and>
   IntersectionAll (Insert [\<lparr>Start = 3, End = 12\<rparr>] NewIntervalTree)
     (Insert [\<lparr>Start = 1, End = 5\<rparr>, \<lparr>Start = 10, End = 15\<rparr>] NewIntervalTree) = 6"
proof -
  let ?a = "Insert [\<lparr>Start = 1, End = 5\<rparr>, \<lparr>Start = 10, End = 15\<rparr>] NewIntervalTree"
  let ?b = "Insert [\<lparr>Start = 3, End = 12\<rparr>] NewIntervalTree"
  have ra: "root ?a = Node \<lparr>Start = 1, End = 5\<rparr> Null (Node \<lparr>Start = 10, End = 15\<rparr> Null Null)"
    by (simp add: Insert_def NewIntervalTree_def Interval_Contains_def LessThan_def
        GreaterThan_def Adjacent_def)
  have rb: "root ?b = Node \<lparr>Start = 3, End = 12\<rparr> Null Null"
    by (simp add: Insert_def NewIntervalTree_def)
  have ma: "maximal_disjoint (root ?a)"
    unfolding ra by (simp add: maximal_disjoint_def valid_def min64_def max64_def
        LessThan_def Adjacent_def)
  have mb: "maximal_disjoint (root ?b)"
    unfolding rb by (simp add: maximal_disjoint_def valid_def min64_def max64_def)
  have "IntersectionAll ?a ?b = 6"
    by (simp add: IntersectionAll_def ra Intersection_def rb intersection.simps
        add64_def sub64_def wrap64_def)
  with IntersectionAll_symmetric [OF ma mb] show ?thesis
    by simp
qed

subsection \<open>C9: queries on the empty tree\<close>

text \<open>
  Claim C9 says that on the empty tree \<open>Intersection i\<close> is 0, \<open>Total\<close> is 0 and
  \<open>Contains i\<close> is false for every valid interval \<open>i\<close>. The first two hold (lemma
  \<open>empty_tree_queries\<close>). \<open>Contains\<close> is true for the full range
  \<open>[- 2^63, 2^63 - 1]\<close>, whose length \<^verbatim>\<open>i.End()-i.Start()+1\<close> wraps around to 0 in
  \<^verbatim>\<open>int64\<close>; this is the defect shown for C5.
\<close>

theorem Contains_empty_full_range:
  "valid \<lparr>Start = min64, End = max64\<rparr> \<and>
   Intersection NewIntervalTree \<lparr>Start = min64, End = max64\<rparr> = 0 \<and>
   Total NewIntervalTree = 0 \<and>
   Contains NewIntervalTree \<lparr>Start = min64, End = max64\<rparr>"
  by (simp add: Contains_def Intersection_def Total_def NewIntervalTree_def valid_def
      min64_def max64_def add64_def sub64_def wrap64_def)

subsection \<open>C10: Balance returns\<close>

text \<open>
  Claim C10: for every tree, Balance terminates and dereferences no absent pointer, and
  on the empty tree it is a no-op. \<open>tree_to_vine\<close> and \<open>balance_loop\<close> are total by
  their termination proofs; the result \<open>Some\<close> says that the loop of \<^verbatim>\<open>nearestPow2\<close>
  ends and that every rotation of every \<^verbatim>\<open>compress\<close> pass finds both of its nodes.
\<close>

theorem Balance_returns:
  "(\<exists>d'. Balance d = Some d') \<and> Balance NewIntervalTree = Some NewIntervalTree"
proof
  show "\<exists>d'. Balance d = Some d'"
  proof (cases "root d = Null")
    case True
    then show ?thesis by (simp add: Balance_def)
  next
    case False
    from balance_ok [OF this] show ?thesis by (auto simp: Balance_def)
  qed
  show "Balance NewIntervalTree = Some NewIntervalTree"
    by (simp add: Balance_def NewIntervalTree_def)
qed

end
